theory Spec2Isabelle
  imports
    Main
    "HOL-Library.Word"
    "HOL-Library.Char_ord"
    "HOL-Library.List_Lexorder"
    "HOL-Library.Product_Lexorder"
    "HOL-Library.Multiset"
begin

section \<open>file\_stats: bytes, the C locale and the environment\<close>

text \<open>
  The program is \<^verbatim>\<open>src/file_stats.cpp\<close>. A \<^verbatim>\<open>std::string\<close> is a sequence of bytes:
  \<^typ>\<open>string\<close>, whose \<^typ>\<open>char\<close> is an 8-bit value read unsigned by \<^const>\<open>of_char\<close>.
  The order on \<^typ>\<open>char\<close> is the order of the byte values and the order on
  \<^typ>\<open>string\<close> is the lexicographic one, a proper prefix first, which is what
  \<^verbatim>\<open>std::string::operator<\<close> computes. The counters are \<^verbatim>\<open>std::uint64_t\<close>: 64-bit
  words whose \<open>+\<close> wraps.
\<close>

type_synonym u64 = "64 word"

text \<open>
  \<^verbatim>\<open>std::isalnum\<close>, \<^verbatim>\<open>std::tolower\<close> and the \<^verbatim>\<open>isspace\<close> inside \<^verbatim>\<open>std::stoul\<close> read
  the C locale that is current when they are called. \<^verbatim>\<open>main\<close> calls
  \<^verbatim>\<open>std::setlocale(LC_ALL, "")\<close> first, which installs the locale the environment
  names, so the three tables are a part of the environment. \<^verbatim>\<open>tolower\<close> is given the
  byte; the source passes it as a \<^verbatim>\<open>char\<close>.
\<close>

record ctype =
  isalnum :: "char \<Rightarrow> bool"
  isspace :: "char \<Rightarrow> bool"
  tolower :: "char \<Rightarrow> char"

definition ascii_upper :: "char \<Rightarrow> bool" where
  "ascii_upper c \<longleftrightarrow> (65::nat) \<le> of_char c \<and> of_char c \<le> (90::nat)"

definition ascii_lower :: "char \<Rightarrow> bool" where
  "ascii_lower c \<longleftrightarrow> (97::nat) \<le> of_char c \<and> of_char c \<le> (122::nat)"

definition ascii_digit :: "char \<Rightarrow> bool" where
  "ascii_digit c \<longleftrightarrow> (48::nat) \<le> of_char c \<and> of_char c \<le> (57::nat)"

text \<open>The claim's word characters: the ASCII letters A-Z, a-z and the digits 0-9.\<close>

definition ascii_alnum :: "char \<Rightarrow> bool" where
  "ascii_alnum c \<longleftrightarrow> ascii_upper c \<or> ascii_lower c \<or> ascii_digit c"

definition ascii_space :: "char \<Rightarrow> bool" where
  "ascii_space c \<longleftrightarrow> of_char c = (32::nat) \<or> ((9::nat) \<le> of_char c \<and> of_char c \<le> (13::nat))"

definition ascii_tolower :: "char \<Rightarrow> char" where
  "ascii_tolower c = (if ascii_upper c then char_of (of_char c + (32::nat)) else c)"

text \<open>The "C" locale, in effect when the environment names no other.\<close>

definition C_locale :: ctype where
  "C_locale = \<lparr>isalnum = ascii_alnum, isspace = ascii_space, tolower = ascii_tolower\<rparr>"

text \<open>
  A single-byte ISO-8859-1 locale (\<^verbatim>\<open>LC_ALL=fr_FR.ISO-8859-1\<close>, or code page 1252 letters
  in that range): the bytes 0xC0-0xFF other than the multiplication and division signs
  are letters, and so are 0xAA, 0xB5 and 0xBA; the capitals 0xC0-0xDE lie 32 below their
  small letters.
\<close>

definition latin1_letter :: "char \<Rightarrow> bool" where
  "latin1_letter c \<longleftrightarrow>
     (let n = (of_char c :: nat) in
      n = 170 \<or> n = 181 \<or> n = 186 \<or> (192 \<le> n \<and> n \<noteq> 215 \<and> n \<noteq> 247))"

definition latin1_upper :: "char \<Rightarrow> bool" where
  "latin1_upper c \<longleftrightarrow>
     (let n = (of_char c :: nat) in ascii_upper c \<or> (192 \<le> n \<and> n \<le> 222 \<and> n \<noteq> 215))"

definition latin1_locale :: ctype where
  "latin1_locale =
     \<lparr>isalnum = (\<lambda>c. ascii_alnum c \<or> latin1_letter c),
      isspace = ascii_space,
      tolower = (\<lambda>c. if latin1_upper c then char_of (of_char c + (32::nat)) else c)\<rparr>"

text \<open>
  What a run reads from outside the process:
  \<^item> \<open>env_locale\<close>: the locale \<^verbatim>\<open>setlocale(LC_ALL, "")\<close> installs;
  \<^item> \<open>files\<close>: the paths a \<^verbatim>\<open>std::ifstream\<close> can open, with the bytes the first
    stream opened on the path reads (text mode and binary mode deliver the same bytes, as
    on POSIX);
  \<^item> \<open>reopened\<close>: the bytes a second stream reads when the path is opened again after
    the first stream has read to its end: for a regular file the same bytes once more, for
    a pipe or a device, which can be read only once, what is left, and nothing for a path
    that no longer opens;
  \<^item> \<open>file_size\<close>: \<^verbatim>\<open>std::filesystem::file_size(path, ec)\<close>, \<open>None\<close> when \<open>ec\<close> is set
    (as it is for a path that is not a regular file);
  \<^item> \<open>can_write\<close>: whether a \<^verbatim>\<open>std::ofstream\<close> opens on the path;
  \<^item> \<open>utc_now\<close>: the string \<^verbatim>\<open>iso8601_utc_now()\<close> returns;
  \<^item> \<open>table_order\<close>: the order in which a \<^verbatim>\<open>std::unordered_map\<close> with these entries
    yields them from \<^verbatim>\<open>begin()\<close> to \<^verbatim>\<open>end()\<close>.
\<close>

record Env =
  env_locale :: ctype
  files :: "string \<rightharpoonup> string"
  reopened :: "string \<rightharpoonup> string"
  file_size :: "string \<Rightarrow> u64 option"
  can_write :: "string \<Rightarrow> bool"
  utc_now :: string
  table_order :: "(string \<rightharpoonup> u64) \<Rightarrow> (string \<times> u64) list"

section \<open>Config and Stats\<close>

record Config =
  input_path :: string
  json_path :: string
  topN :: u64
  case_sensitive :: bool

definition default_config :: Config where
  "default_config = \<lparr>input_path = [], json_path = [], topN = 20, case_sensitive = False\<rparr>"

record Stats =
  lines :: u64
  words :: u64
  bytes :: u64
  freq :: "string \<rightharpoonup> u64"

definition initial_stats :: Stats where
  "initial_stats = \<lparr>lines = 0, words = 0, bytes = 0, freq = Map.empty\<rparr>"

section \<open>The tokenizer\<close>

definition is_word_char :: "ctype \<Rightarrow> char \<Rightarrow> bool" where
  "is_word_char loc ch \<longleftrightarrow> isalnum loc ch"

text \<open>
  The three statements of a flush:
  \<^verbatim>\<open>++st.words; ++st.freq[token]; token.clear();\<close>
  \<^verbatim>\<open>operator[]\<close> inserts the count 0 for a new key before the increment. Clearing the
  buffer is the caller's \<open>[]\<close>.
\<close>

definition flush :: "string \<Rightarrow> Stats \<Rightarrow> Stats" where
  "flush token st =
     st\<lparr>words := words st + 1,
        freq := (freq st)(token \<mapsto> (case freq st token of None \<Rightarrow> 0 | Some c \<Rightarrow> c) + 1)\<rparr>"

text \<open>
  The \<^verbatim>\<open>for\<close> loop over the bytes of one line, on the pair of the statistics and the
  token buffer.
\<close>

fun scan_chars :: "ctype \<Rightarrow> bool \<Rightarrow> string \<Rightarrow> Stats \<times> string \<Rightarrow> Stats \<times> string" where
  "scan_chars loc cs [] (st, token) = (st, token)"
| "scan_chars loc cs (ch # rest) (st, token) =
     (if is_word_char loc ch
      then scan_chars loc cs rest (st, token @ [if \<not> cs then tolower loc ch else ch])
      else if token \<noteq> []
      then scan_chars loc cs rest (flush token st, [])
      else scan_chars loc cs rest (st, token))"

text \<open>The body of the \<^verbatim>\<open>while\<close> loop: count the line, scan it, flush the last token.\<close>

definition scan_line :: "ctype \<Rightarrow> bool \<Rightarrow> Stats \<Rightarrow> string \<Rightarrow> Stats" where
  "scan_line loc cs st line =
     (case scan_chars loc cs line (st\<lparr>lines := lines st + 1\<rparr>, []) of
        (st', token) \<Rightarrow> if token \<noteq> [] then flush token st' else st')"

text \<open>
  \<^verbatim>\<open>std::getline(in, line)\<close> on the bytes not yet read: at the end of the file it
  extracts nothing and fails (\<open>None\<close>); otherwise the line is the bytes before the first
  line feed, and the line feed is consumed with it.
\<close>

definition getline :: "string \<Rightarrow> (string \<times> string) option" where
  "getline s =
     (if s = [] then None
      else Some (takeWhile (\<lambda>c. c \<noteq> CHR ''\<newline>'') s,
                 drop 1 (dropWhile (\<lambda>c. c \<noteq> CHR ''\<newline>'') s)))"

lemma getline_shorter: "getline s = Some (line, rest) \<Longrightarrow> length rest < length s"
proof -
  assume g: "getline s = Some (line, rest)"
  then have ne: "s \<noteq> []" and r: "rest = drop 1 (dropWhile (\<lambda>c. c \<noteq> CHR ''\<newline>'') s)"
    by (auto simp: getline_def split: if_splits)
  have "length (dropWhile (\<lambda>c. c \<noteq> CHR ''\<newline>'') s) \<le> length s"
    by (rule length_dropWhile_le)
  with ne r show ?thesis by (cases s) auto
qed

function read_loop :: "ctype \<Rightarrow> bool \<Rightarrow> Stats \<Rightarrow> string \<Rightarrow> Stats" where
  "read_loop loc cs st s =
     (case getline s of
        None \<Rightarrow> st
      | Some (line, rest) \<Rightarrow> read_loop loc cs (scan_line loc cs st line) rest)"
  by pat_completeness auto
termination
  by (relation "measure (\<lambda>(loc, cs, st, s). length s)") (auto dest: getline_shorter)

declare read_loop.simps [simp del]

text \<open>
  The fallback byte count: \<^verbatim>\<open>while (in2.read(buf, sizeof(buf)) || in2.gcount() > 0)\<close>
  with a buffer of \<open>1 << 14\<close> bytes. A read on a stream that is no longer good extracts
  nothing and fails, which ends the loop; a read that fills the buffer succeeds; a short
  read sets \<open>eofbit\<close> and \<open>failbit\<close> and leaves its length in \<open>gcount\<close>.
\<close>

function count_bytes :: "string \<Rightarrow> bool \<Rightarrow> u64 \<Rightarrow> u64" where
  "count_bytes s good acc =
     (if \<not> good then acc
      else if 16384 \<le> length s then count_bytes (drop 16384 s) True (acc + 16384)
      else if 0 < length s then count_bytes [] False (acc + of_nat (length s))
      else acc)"
  by pat_completeness auto
termination
  by (relation "measure (\<lambda>(s, good, acc). length s + (if good then 1 else 0))") auto

declare count_bytes.simps [simp del]

datatype error = runtime_error string

text \<open>
  \<^verbatim>\<open>analyze_file\<close> opens the path twice: \<^verbatim>\<open>in\<close> for the scan, which reads it to the
  end, and, only when \<^verbatim>\<open>file_size\<close> has set \<open>ec\<close>, \<^verbatim>\<open>in2\<close> in binary mode for the
  fallback count. \<^verbatim>\<open>in2\<close> is not tested: on a stream that did not open no read extracts
  anything and the count stays 0.
\<close>

definition analyze_file :: "Env \<Rightarrow> Config \<Rightarrow> error + Stats" where
  "analyze_file env conf =
     (case files env (input_path conf) of
        None \<Rightarrow> Inl (runtime_error (''Cannot open input file: '' @ input_path conf))
      | Some content \<Rightarrow>
          let st = read_loop (env_locale env) (case_sensitive conf) initial_stats content
          in Inr (st\<lparr>bytes :=
                (case file_size env (input_path conf) of
                   Some n \<Rightarrow> n
                 | None \<Rightarrow>
                     (case reopened env (input_path conf) of
                        None \<Rightarrow> 0
                      | Some raw \<Rightarrow> count_bytes raw True 0))\<rparr>))"

section \<open>The Top-K selector\<close>

type_synonym entry = "string \<times> u64"

text \<open>
  The comparison \<^verbatim>\<open>top_k\<close> hands to \<^verbatim>\<open>std::partial_sort\<close>:
  \<^verbatim>\<open>if (a.second != b.second) return a.second > b.second; return a.first < b.first;\<close>
\<close>

definition top_k_comp :: "entry \<Rightarrow> entry \<Rightarrow> bool" where
  "top_k_comp a b = (if snd a \<noteq> snd b then snd a > snd b else fst a < fst b)"

text \<open>
  \<^verbatim>\<open>std::partial_sort(first, middle, last, comp)\<close> is the C++ library's. Its contract:
  afterwards the first \<open>middle - first\<close> positions hold the smallest elements of the
  range in ascending order of \<open>comp\<close>, and the other elements follow in an order the
  standard leaves open. The model selects the least remaining element \<open>m\<close> times and
  leaves the others as they stood.
\<close>

fun min_entry :: "entry \<Rightarrow> entry list \<Rightarrow> entry" where
  "min_entry a [] = a"
| "min_entry a (b # bs) = (if top_k_comp b a then min_entry b bs else min_entry a bs)"

fun partial_sort :: "nat \<Rightarrow> entry list \<Rightarrow> entry list" where
  "partial_sort 0 v = v"
| "partial_sort (Suc m) [] = []"
| "partial_sort (Suc m) (a # as) =
     (let b = min_entry a as in b # partial_sort m (remove1 b (a # as)))"

text \<open>
  \<^verbatim>\<open>top_k(freq, k)\<close>: the vector \<open>v\<close> is filled from the table in the table's own
  iteration order, \<open>iter\<close>; \<^verbatim>\<open>v.resize(k)\<close> on a longer vector keeps its first \<open>k\<close>
  elements.
\<close>

definition top_k :: "((string \<rightharpoonup> u64) \<Rightarrow> entry list) \<Rightarrow> (string \<rightharpoonup> u64) \<Rightarrow> nat \<Rightarrow> entry list" where
  "top_k iter fr k =
     (let v = iter fr;
          v' = partial_sort (min k (length v)) v
      in if length v' > k then take k v' else v')"

text \<open>
  What every \<^verbatim>\<open>std::unordered_map\<close> guarantees of its iteration: each entry of the
  table once, and nothing else.
\<close>

definition entries_in_order :: "(string \<rightharpoonup> u64) \<Rightarrow> entry list \<Rightarrow> bool" where
  "entries_in_order fr v \<longleftrightarrow> distinct v \<and> set v = Map.graph fr"

section \<open>The command line\<close>

definition print_help :: "string \<Rightarrow> string" where
  "print_help exe =
     ''File Stats - Text file analysis\<newline>\<newline>'' @
     ''Usage:\<newline>'' @
     ''  '' @ exe @ '' <input.txt> [--top N] [--json out.json] [--case-sensitive] [--help]\<newline>\<newline>'' @
     ''Options:\<newline>'' @
     ''  --top N            Show top N most frequent words (default: 20)\<newline>'' @
     ''  --json out.json    Export results to JSON file\<newline>'' @
     ''  --case-sensitive   Word frequency is case-sensitive (default: false)\<newline>'' @
     ''  --help             Show this help and exit\<newline>''"

text \<open>
  \<^verbatim>\<open>std::stoul(str)\<close> is the C++ library's: \<^verbatim>\<open>strtoul\<close> in base 10, with an
  \<^verbatim>\<open>unsigned long\<close> of 64 bits. It skips leading white space, takes one optional sign
  and then the longest run of digits, and ignores what follows. With no digit it throws
  \<^verbatim>\<open>std::invalid_argument\<close>; when the digits exceed the type it throws
  \<^verbatim>\<open>std::out_of_range\<close>; after a minus sign the value is negated in the unsigned type.
\<close>

datatype stoul_error = invalid_argument | out_of_range

fun digits_value :: "nat \<Rightarrow> string \<Rightarrow> nat" where
  "digits_value acc [] = acc"
| "digits_value acc (c # cs) = digits_value (10 * acc + (of_char c - 48)) cs"

definition stoul :: "ctype \<Rightarrow> string \<Rightarrow> stoul_error + u64" where
  "stoul loc str =
     (let s1 = dropWhile (isspace loc) str;
          neg = (s1 \<noteq> [] \<and> hd s1 = CHR ''-'');
          s2 = (if s1 \<noteq> [] \<and> (hd s1 = CHR ''-'' \<or> hd s1 = CHR ''+'') then tl s1 else s1);
          ds = takeWhile ascii_digit s2
      in if ds = [] then Inl invalid_argument
         else if 2 ^ 64 \<le> digits_value 0 ds then Inl out_of_range
         else Inr (if neg then - of_nat (digits_value 0 ds) else of_nat (digits_value 0 ds)))"

text \<open>
  \<^verbatim>\<open>parse_args\<close> ends in one of three ways: it returns its \<^verbatim>\<open>bool\<close>, with the
  \<^verbatim>\<open>Config\<close> as it left it and what it wrote to \<^verbatim>\<open>std::cerr\<close>; it calls
  \<^verbatim>\<open>std::exit(0)\<close> after printing the help to \<^verbatim>\<open>std::cout\<close>; or \<^verbatim>\<open>std::stoul\<close> throws.
  The command line is \<open>argv[0] = exe\<close> followed by \<open>args\<close>, and the loop runs over the
  arguments after the path, \<open>++i\<close> taking the value of \<open>--top\<close> and \<open>--json\<close>.
\<close>

datatype parse_result = Returned bool Config string | Exited string | Threw stoul_error

function parse_loop :: "ctype \<Rightarrow> string \<Rightarrow> Config \<Rightarrow> string list \<Rightarrow> parse_result" where
  "parse_loop loc exe conf [] = Returned True conf []"
| "parse_loop loc exe conf (a # rest) =
     (if a = ''--help'' \<or> a = ''-h'' then Exited (print_help exe)
      else if a = ''--top'' \<and> rest \<noteq> [] then
        (case stoul loc (hd rest) of
           Inl e \<Rightarrow> Threw e
         | Inr n \<Rightarrow> parse_loop loc exe (conf\<lparr>topN := n\<rparr>) (tl rest))
      else if a = ''--json'' \<and> rest \<noteq> [] then
        parse_loop loc exe (conf\<lparr>json_path := hd rest\<rparr>) (tl rest)
      else if a = ''--case-sensitive'' then
        parse_loop loc exe (conf\<lparr>case_sensitive := True\<rparr>) rest
      else Returned False conf (''Unknown argument: '' @ a @ ''\<newline>''))"
  by pat_completeness auto
termination
  by (relation "measure (\<lambda>(loc, exe, conf, args). length args)") auto

definition parse_args :: "ctype \<Rightarrow> string \<Rightarrow> string list \<Rightarrow> parse_result" where
  "parse_args loc exe args =
     (case args of
        [] \<Rightarrow> Returned False default_config []
      | path # rest \<Rightarrow> parse_loop loc exe (default_config\<lparr>input_path := path\<rparr>) rest)"

section \<open>The report and the JSON document\<close>

text \<open>A \<^verbatim>\<open>std::uint64_t\<close> sent to a stream: its decimal digits.\<close>

function show_nat :: "nat \<Rightarrow> string" where
  "show_nat n =
     (if n < 10 then [char_of (48 + n)]
      else show_nat (n div 10) @ [char_of (48 + n mod 10)])"
  by pat_completeness auto
termination
  by (relation "measure (\<lambda>n. n)") auto

declare show_nat.simps [simp del]

definition show_u64 :: "u64 \<Rightarrow> string" where
  "show_u64 n = show_nat (unat n)"

text \<open>\<^verbatim>\<open>std::setw(8)\<close> before a number: blanks on the left up to eight columns.\<close>

definition setw8 :: "string \<Rightarrow> string" where
  "setw8 s = replicate (8 - length s) CHR '' '' @ s"

definition report :: "Config \<Rightarrow> Stats \<Rightarrow> entry list \<Rightarrow> string" where
  "report conf st tops =
     ''File:   '' @ input_path conf @ ''\<newline>'' @
     ''Lines:  '' @ show_u64 (lines st) @ ''\<newline>'' @
     ''Words:  '' @ show_u64 (words st) @ ''\<newline>'' @
     ''Bytes:  '' @ show_u64 (bytes st) @ ''\<newline>'' @
     ''Top '' @ show_nat (length tops) @ '' words'' @
       (if case_sensitive conf then '' (case-sensitive)'' else '' (case-insensitive)'') @
       '':\<newline>'' @
     concat (map (\<lambda>(w, c). ''  '' @ setw8 (show_u64 c) @ ''  '' @ w @ ''\<newline>'') tops)"

definition dquote :: char where
  "dquote = CHR 0x22"

definition backslash :: char where
  "backslash = CHR 0x5C"

definition hex_digit :: "nat \<Rightarrow> char" where
  "hex_digit d = (if d < 10 then char_of (48 + d) else char_of (87 + d))"

definition json_escape_char :: "char \<Rightarrow> string" where
  "json_escape_char c =
     (if c = dquote then [backslash, dquote]
      else if c = backslash then [backslash, backslash]
      else if c = CHR 0x08 then [backslash, CHR ''b'']
      else if c = CHR 0x0C then [backslash, CHR ''f'']
      else if c = CHR ''\<newline>'' then [backslash, CHR ''n'']
      else if c = CHR 0x0D then [backslash, CHR ''r'']
      else if c = CHR 0x09 then [backslash, CHR ''t'']
      else if (of_char c :: nat) < 32
      then [backslash, CHR ''u'', CHR ''0'', CHR ''0'',
            hex_digit (of_char c div 16), hex_digit (of_char c mod 16)]
      else [c])"

definition json_escape :: "string \<Rightarrow> string" where
  "json_escape s = concat (map json_escape_char s)"

text \<open>The text \<^verbatim>\<open>write_json\<close> sends to the file once it is open.\<close>

definition json_document :: "string \<Rightarrow> Config \<Rightarrow> Stats \<Rightarrow> entry list \<Rightarrow> string" where
  "json_document now conf st tops =
     ''{\<newline>'' @
     ''  '' @ [dquote] @ ''tool'' @ [dquote] @ '': '' @ [dquote] @ ''file-stats'' @ [dquote] @ '',\<newline>'' @
     ''  '' @ [dquote] @ ''timestamp'' @ [dquote] @ '': '' @ [dquote] @ now @ [dquote] @ '',\<newline>'' @
     ''  '' @ [dquote] @ ''input_path'' @ [dquote] @ '': '' @ [dquote] @
        json_escape (input_path conf) @ [dquote] @ '',\<newline>'' @
     ''  '' @ [dquote] @ ''lines'' @ [dquote] @ '': '' @ show_u64 (lines st) @ '',\<newline>'' @
     ''  '' @ [dquote] @ ''words'' @ [dquote] @ '': '' @ show_u64 (words st) @ '',\<newline>'' @
     ''  '' @ [dquote] @ ''bytes'' @ [dquote] @ '': '' @ show_u64 (bytes st) @ '',\<newline>'' @
     ''  '' @ [dquote] @ ''case_sensitive'' @ [dquote] @ '': '' @
        (if case_sensitive conf then ''true'' else ''false'') @ '',\<newline>'' @
     ''  '' @ [dquote] @ ''top_words'' @ [dquote] @ '': [\<newline>'' @
     concat (map (\<lambda>i.
        ''    { '' @ [dquote] @ ''word'' @ [dquote] @ '': '' @ [dquote] @
        json_escape (fst (tops ! i)) @ [dquote] @ '', '' @ [dquote] @ ''count'' @ [dquote] @ '': '' @
        show_u64 (snd (tops ! i)) @ '' }'' @
        (if i + 1 < length tops then '','' else []) @ ''\<newline>'') [0..<length tops]) @
     ''  ]\<newline>'' @
     ''}\<newline>''"

definition write_json :: "Env \<Rightarrow> Config \<Rightarrow> Stats \<Rightarrow> entry list \<Rightarrow> error + string" where
  "write_json env conf st tops =
     (if \<not> can_write env (json_path conf)
      then Inl (runtime_error (''Cannot write JSON file: '' @ json_path conf))
      else Inr (json_document (utc_now env) conf st tops))"

section \<open>main\<close>

text \<open>
  How a run ends: \<^verbatim>\<open>main\<close> returns a code (or \<^verbatim>\<open>std::exit\<close> is called with it), or an
  exception leaves \<^verbatim>\<open>main\<close> and \<^verbatim>\<open>std::terminate\<close> aborts the process. \<open>stdout\<close> and
  \<open>stderr\<close> hold what the program wrote to \<^verbatim>\<open>std::cout\<close> and \<^verbatim>\<open>std::cerr\<close>, and
  \<open>written\<close> the JSON file, if one was written.
\<close>

datatype ending = Exit int | Terminate stoul_error

record Run =
  ending :: ending
  stdout :: string
  stderr :: string
  written :: "(string \<times> string) option"

definition what :: "error \<Rightarrow> string" where
  "what e = (case e of runtime_error msg \<Rightarrow> msg)"

definition main :: "Env \<Rightarrow> string \<Rightarrow> string list \<Rightarrow> Run" where
  "main env exe args =
     (case parse_args (env_locale env) exe args of
        Exited out \<Rightarrow> \<lparr>ending = Exit 0, stdout = out, stderr = [], written = None\<rparr>
      | Threw e \<Rightarrow> \<lparr>ending = Terminate e, stdout = [], stderr = [], written = None\<rparr>
      | Returned ok conf err \<Rightarrow>
          if \<not> ok
          then \<lparr>ending = Exit 1, stdout = print_help exe, stderr = err, written = None\<rparr>
          else
            (case analyze_file env conf of
               Inl ex \<Rightarrow>
                 \<lparr>ending = Exit 2, stdout = [],
                  stderr = err @ ''Error: '' @ what ex @ ''\<newline>'', written = None\<rparr>
             | Inr st \<Rightarrow>
                 let tops = top_k (table_order env) (freq st) (unat (topN conf));
                     out = report conf st tops
                 in if json_path conf \<noteq> []
                    then
                      (case write_json env conf st tops of
                         Inl ex \<Rightarrow>
                           \<lparr>ending = Exit 2, stdout = out,
                            stderr = err @ ''Error: '' @ what ex @ ''\<newline>'', written = None\<rparr>
                       | Inr doc \<Rightarrow>
                           \<lparr>ending = Exit 0,
                            stdout = out @ ''\<newline>JSON written to: '' @ json_path conf @ ''\<newline>'',
                            stderr = err, written = Some (json_path conf, doc)\<rparr>)
                    else \<lparr>ending = Exit 0, stdout = out, stderr = err, written = None\<rparr>))"

section \<open>The tokens of a line and of a file\<close>

text \<open>
  The tokens the loop over one line flushes, in the order it flushes them: the loop of
  \<^const>\<open>scan_chars\<close> with the flushed buffers collected instead of counted (lemma
  \<open>scan_line_tokens\<close> below ties the two).
\<close>

fun line_tokens_from :: "ctype \<Rightarrow> bool \<Rightarrow> string \<Rightarrow> string \<Rightarrow> string list" where
  "line_tokens_from loc cs [] token = (if token \<noteq> [] then [token] else [])"
| "line_tokens_from loc cs (ch # rest) token =
     (if is_word_char loc ch
      then line_tokens_from loc cs rest (token @ [if \<not> cs then tolower loc ch else ch])
      else if token \<noteq> []
      then token # line_tokens_from loc cs rest []
      else line_tokens_from loc cs rest [])"

definition line_tokens :: "ctype \<Rightarrow> bool \<Rightarrow> string \<Rightarrow> string list" where
  "line_tokens loc cs line = line_tokens_from loc cs line []"

text \<open>The lines \<^verbatim>\<open>std::getline\<close> delivers until it fails.\<close>

function file_lines :: "string \<Rightarrow> string list" where
  "file_lines s =
     (case getline s of
        None \<Rightarrow> []
      | Some (line, rest) \<Rightarrow> line # file_lines rest)"
  by pat_completeness auto
termination
  by (relation "measure length") (auto dest: getline_shorter)

declare file_lines.simps [simp del]

definition file_tokens :: "ctype \<Rightarrow> bool \<Rightarrow> string \<Rightarrow> string list" where
  "file_tokens loc cs s = concat (map (line_tokens loc cs) (file_lines s))"

text \<open>The table that counting the tokens \<open>ts\<close> one by one leaves, from an empty table.\<close>

definition tally :: "string list \<Rightarrow> (string \<rightharpoonup> u64)" where
  "tally ts = (\<lambda>k. if k \<in> set ts then Some (of_nat (count_list ts k)) else None)"

text \<open>
  The rank of an entry as a key in a linear order: the count, reversed, and then the
  word. \<^const>\<open>top_k_comp\<close> is the strict order of the keys (lemma
  \<open>top_k_comp_rank_key\<close>), and the full ranking of a vector is the vector sorted by
  its keys.
\<close>

definition rank_key :: "entry \<Rightarrow> nat \<times> string" where
  "rank_key e = (2 ^ 64 - 1 - unat (snd e), fst e)"

definition ranking :: "entry list \<Rightarrow> entry list" where
  "ranking v = sort_key rank_key v"

text \<open>
  The claim's "maximal runs of word characters" of a line, in order: the line is
  separators, then a non-empty run of word characters that ends the line or is followed
  by a separator, then the rest of the line, whose runs follow.
\<close>

inductive max_runs :: "(char \<Rightarrow> bool) \<Rightarrow> string \<Rightarrow> string list \<Rightarrow> bool" for P where
  no_run: "\<forall>c\<in>set sep. \<not> P c \<Longrightarrow> max_runs P sep []"
| run: "\<forall>c\<in>set sep. \<not> P c \<Longrightarrow> t \<noteq> [] \<Longrightarrow> \<forall>c\<in>set t. P c \<Longrightarrow>
        rest = [] \<or> \<not> P (hd rest) \<Longrightarrow> max_runs P rest ts \<Longrightarrow>
        max_runs P (sep @ t @ rest) (t # ts)"

text \<open>
  A locale that classifies and folds the bytes of \<open>S\<close> as the "C" locale does. The UTF-8
  and ISO-8859 locales do so for the ASCII bytes, whatever they say of the others.
\<close>

definition agrees_with_C_on :: "ctype \<Rightarrow> char set \<Rightarrow> bool" where
  "agrees_with_C_on loc S \<longleftrightarrow>
     (\<forall>c\<in>S. isalnum loc c = ascii_alnum c \<and> tolower loc c = ascii_tolower c)"

text \<open>The file of the claims' scenario, and an environment to run the examples in.\<close>

definition scenario_file :: string where
  "scenario_file = ''Hello hello WORLD\<newline>world world\<newline>''"

definition demo_env :: "string \<Rightarrow> u64 option \<Rightarrow> entry list \<Rightarrow> Env" where
  "demo_env content sz order =
     \<lparr>env_locale = C_locale,
      files = [''in.txt'' \<mapsto> content],
      reopened = [''in.txt'' \<mapsto> content],
      file_size = (\<lambda>p. sz),
      can_write = (\<lambda>p. True),
      utc_now = ''2025-09-22T18:00:00Z'',
      table_order = (\<lambda>fr. order)\<rparr>"

definition demo_config :: Config where
  "demo_config = default_config\<lparr>input_path := ''in.txt''\<rparr>"


section \<open>The loops, by what they compute\<close>

lemma scan_chars_tokens:
  "(case scan_chars loc cs l (st, tok) of (st', t) \<Rightarrow> if t \<noteq> [] then flush t st' else st')
     = fold flush (line_tokens_from loc cs l tok) st"
  by (induction l arbitrary: st tok) auto

lemma lines_flush [simp]: "lines (flush t st) = lines st"
  by (simp add: flush_def)

lemma bytes_flush [simp]: "bytes (flush t st) = bytes st"
  by (simp add: flush_def)

lemma flush_lines_update: "flush t (st\<lparr>lines := n\<rparr>) = (flush t st)\<lparr>lines := n\<rparr>"
  by (simp add: flush_def)

lemma fold_flush_lines_update:
  "fold flush ts (st\<lparr>lines := n\<rparr>) = (fold flush ts st)\<lparr>lines := n\<rparr>"
  by (induction ts arbitrary: st) (simp_all add: flush_lines_update)

lemma lines_fold_flush [simp]: "lines (fold flush ts st) = lines st"
  by (induction ts arbitrary: st) simp_all

lemma bytes_fold_flush [simp]: "bytes (fold flush ts st) = bytes st"
  by (induction ts arbitrary: st) simp_all

lemma scan_line_tokens:
  "scan_line loc cs st line = (fold flush (line_tokens loc cs line) st)\<lparr>lines := lines st + 1\<rparr>"
  unfolding scan_line_def line_tokens_def scan_chars_tokens
  by (simp add: fold_flush_lines_update)

lemma read_loop_tokens:
  "read_loop loc cs st s =
     (fold flush (file_tokens loc cs s) st)\<lparr>lines := lines st + of_nat (length (file_lines s))\<rparr>"
proof (induction s arbitrary: st rule: file_lines.induct)
  case (1 s)
  show ?case
  proof (cases "getline s")
    case None
    then show ?thesis
      by (simp add: file_tokens_def read_loop.simps [of loc cs st s] file_lines.simps [of s])
  next
    case (Some p)
    obtain line rest where p: "p = (line, rest)" by (cases p)
    have "read_loop loc cs st s = read_loop loc cs (scan_line loc cs st line) rest"
      using Some p by (simp add: read_loop.simps [of loc cs st s])
    also have "\<dots> = (fold flush (file_tokens loc cs rest) (scan_line loc cs st line))
          \<lparr>lines := lines (scan_line loc cs st line) + of_nat (length (file_lines rest))\<rparr>"
      using "1.IH" [OF Some p [symmetric]] by simp
    also have "\<dots> = (fold flush (file_tokens loc cs s) st)
          \<lparr>lines := lines st + of_nat (length (file_lines s))\<rparr>"
      using Some p
      by (simp add: scan_line_tokens file_tokens_def fold_flush_lines_update add.assoc
          file_lines.simps [of s])
    finally show ?thesis .
  qed
qed

lemma words_fold_flush: "words (fold flush ts st) = words st + of_nat (length ts)"
  by (induction ts arbitrary: st) (simp_all add: flush_def)

lemma freq_fold_flush:
  "freq (fold flush ts st) k =
     (if k \<in> set ts
      then Some ((case freq st k of None \<Rightarrow> 0 | Some c \<Rightarrow> c) + of_nat (count_list ts k))
      else freq st k)"
  by (induction ts arbitrary: st) (auto simp: flush_def)

lemma freq_fold_flush_initial: "freq (fold flush ts initial_stats) = tally ts"
  by (rule ext) (simp add: freq_fold_flush tally_def initial_stats_def)

lemma fold_flush_initial:
  "fold flush ts initial_stats =
     \<lparr>lines = 0, words = of_nat (length ts), bytes = 0, freq = tally ts\<rparr>"
proof (rule Stats.equality)
  show "freq (fold flush ts initial_stats)
      = freq \<lparr>lines = 0, words = of_nat (length ts), bytes = 0, freq = tally ts\<rparr>"
    by (simp add: freq_fold_flush_initial)
qed (simp_all add: words_fold_flush initial_stats_def)

lemma count_bytes_sum:
  "count_bytes s good acc = (if good then acc + of_nat (length s) else acc)"
proof (induction s good acc rule: count_bytes.induct)
  case (1 s good acc)
  show ?case
  proof (cases "\<not> good")
    case True
    then show ?thesis by (subst count_bytes.simps) simp
  next
    case False
    note good = this
    show ?thesis
    proof (cases "16384 \<le> length s")
      case True
      then have "(of_nat (length s) :: u64) = of_nat (16384 + (length s - 16384))"
        by simp
      also have "\<dots> = 16384 + of_nat (length s - 16384)"
        by (simp only: of_nat_add of_nat_numeral)
      finally have "(of_nat (length s) :: u64) = 16384 + of_nat (length s - 16384)" .
      moreover have "count_bytes s good acc = count_bytes (drop 16384 s) True (acc + 16384)"
        using good True by (subst count_bytes.simps) simp
      ultimately show ?thesis
        using "1.IH"(1) good True by (simp add: add.assoc)
    next
      case False
      have "count_bytes s good acc =
          (if 0 < length s then count_bytes [] False (acc + of_nat (length s)) else acc)"
        using good False by (subst count_bytes.simps) simp
      then show ?thesis
        using good by (simp add: count_bytes.simps [of "[]" False])
    qed
  qed
qed

lemma lines_initial_stats: "lines initial_stats = 0"
  by (simp add: initial_stats_def)

lemma analyze_file_result:
  assumes "files env (input_path conf) = Some content"
  shows "analyze_file env conf =
     Inr \<lparr>lines = of_nat (length (file_lines content)),
          words = of_nat (length (file_tokens (env_locale env) (case_sensitive conf) content)),
          bytes = (case file_size env (input_path conf) of
                     Some n \<Rightarrow> n
                   | None \<Rightarrow>
                       (case reopened env (input_path conf) of
                          None \<Rightarrow> 0
                        | Some raw \<Rightarrow> of_nat (length raw))),
          freq = tally (file_tokens (env_locale env) (case_sensitive conf) content)\<rparr>"
  using assms
  by (simp add: analyze_file_def read_loop_tokens fold_flush_initial count_bytes_sum
      lines_initial_stats split: option.split)

lemma dom_tally [simp]: "dom (tally ts) = set ts"
  by (auto simp: tally_def dom_def)

lemma the_tally: "k \<in> set ts \<Longrightarrow> the (tally ts k) = of_nat (count_list ts k)"
  by (simp add: tally_def)

lemma sum_tally: "(\<Sum>k\<in>dom (tally ts). the (tally ts k)) = (of_nat (length ts) :: u64)"
proof -
  have "(\<Sum>k\<in>set ts. the (tally ts k)) = (\<Sum>k\<in>set ts. (of_nat (count_list ts k) :: u64))"
    by (rule sum.cong) (simp_all add: the_tally)
  also have "\<dots> = of_nat (\<Sum>k\<in>set ts. count_list ts k)"
    by simp
  also have "(\<Sum>k\<in>set ts. count_list ts k) = length ts"
    by (rule sum_count_set) simp_all
  finally show ?thesis by simp
qed

lemma unat_of_nat_u64: "n < 2 ^ 64 \<Longrightarrow> unat (of_nat n :: u64) = n"
  by (simp add: unat_of_nat)

lemma sum_unat_tally:
  assumes "length ts < 2 ^ 64"
  shows "(\<Sum>k\<in>dom (tally ts). unat (the (tally ts k))) = length ts"
proof -
  have "(\<Sum>k\<in>set ts. unat (the (tally ts k))) = (\<Sum>k\<in>set ts. count_list ts k)"
  proof (rule sum.cong)
    fix k assume k: "k \<in> set ts"
    have "count_list ts k \<le> length ts" by (rule count_le_length)
    with assms have "count_list ts k < 2 ^ 64" by simp
    then show "unat (the (tally ts k)) = count_list ts k"
      using k by (simp add: the_tally unat_of_nat_u64)
  qed simp
  also have "\<dots> = length ts"
    by (rule sum_count_set) simp_all
  finally show ?thesis by simp
qed

lemma length_line_tokens_from:
  "length (line_tokens_from loc cs l tok) \<le> length l + (if tok = [] then 0 else 1)"
proof (induction l arbitrary: tok)
  case Nil
  then show ?case by simp
next
  case (Cons ch l)
  show ?case
  proof (cases "is_word_char loc ch")
    case True
    with Cons [of "tok @ [if \<not> cs then tolower loc ch else ch]"] show ?thesis
      by (simp split: if_splits)
  next
    case False
    with Cons [of "[]"] show ?thesis by simp
  qed
qed

lemma length_line_tokens: "length (line_tokens loc cs l) \<le> length l"
  using length_line_tokens_from [of loc cs l "[]"] by (simp add: line_tokens_def)

lemma getline_lengths:
  "getline s = Some (line, rest) \<Longrightarrow> length line + length rest \<le> length s"
proof -
  assume "getline s = Some (line, rest)"
  then have l: "line = takeWhile (\<lambda>c. c \<noteq> CHR ''\<newline>'') s"
    and r: "rest = drop 1 (dropWhile (\<lambda>c. c \<noteq> CHR ''\<newline>'') s)"
    by (auto simp: getline_def split: if_splits)
  have "length (takeWhile (\<lambda>c. c \<noteq> CHR ''\<newline>'') s)
      + length (dropWhile (\<lambda>c. c \<noteq> CHR ''\<newline>'') s) = length s"
    by (metis length_append takeWhile_dropWhile_id)
  then show ?thesis by (simp add: l r)
qed

lemma sum_length_file_lines: "sum_list (map length (file_lines s)) \<le> length s"
proof (induction s rule: file_lines.induct)
  case (1 s)
  show ?case
  proof (cases "getline s")
    case None
    then show ?thesis by (simp add: file_lines.simps [of s])
  next
    case (Some p)
    obtain line rest where p: "p = (line, rest)" by (cases p)
    from "1.IH" [OF Some p [symmetric]] getline_lengths [of s line rest] Some p
    show ?thesis by (simp add: file_lines.simps [of s])
  qed
qed

lemma length_file_tokens: "length (file_tokens loc cs s) \<le> length s"
proof -
  have "length (file_tokens loc cs s)
      = sum_list (map (\<lambda>l. length (line_tokens loc cs l)) (file_lines s))"
    by (simp add: file_tokens_def length_concat comp_def)
  also have "\<dots> \<le> sum_list (map length (file_lines s))"
    by (rule sum_list_mono) (rule length_line_tokens)
  also have "\<dots> \<le> length s" by (rule sum_length_file_lines)
  finally show ?thesis .
qed

lemma line_tokens_from_fold:
  "line_tokens_from loc False l (map (tolower loc) tok)
     = map (map (tolower loc)) (line_tokens_from loc True l tok)"
proof (induction l arbitrary: tok)
  case Nil
  then show ?case by simp
next
  case (Cons ch l)
  show ?case
  proof (cases "is_word_char loc ch")
    case True
    with Cons [of "tok @ [ch]"] show ?thesis by simp
  next
    case False
    with Cons [of "[]"] show ?thesis by simp
  qed
qed

lemma line_tokens_fold:
  "line_tokens loc False l = map (map (tolower loc)) (line_tokens loc True l)"
  using line_tokens_from_fold [of loc l "[]"] by (simp add: line_tokens_def)

lemma file_tokens_fold:
  "file_tokens loc False s = map (map (tolower loc)) (file_tokens loc True s)"
  by (simp add: file_tokens_def line_tokens_fold [abs_def] map_concat comp_def)

lemma max_runs_separator: "\<not> P c \<Longrightarrow> max_runs P l ts \<Longrightarrow> max_runs P (c # l) ts"
proof (erule max_runs.cases)
  fix sep assume "\<not> P c" "l = sep" "ts = []" "\<forall>c\<in>set sep. \<not> P c"
  then show ?thesis using max_runs.no_run [of "c # sep" P] by simp
next
  fix sep t rest ts'
  assume "\<not> P c" and l: "l = sep @ t @ rest" and ts: "ts = t # ts'"
    and h: "\<forall>c\<in>set sep. \<not> P c" "t \<noteq> []" "\<forall>c\<in>set t. P c" "rest = [] \<or> \<not> P (hd rest)"
      "max_runs P rest ts'"
  then have "\<forall>x\<in>set (c # sep). \<not> P x" by simp
  from max_runs.run [OF this h(2-5)] show ?thesis by (simp add: l ts)
qed

lemma max_runs_line_tokens_from:
  "\<forall>c\<in>set tok. is_word_char loc c \<Longrightarrow>
   max_runs (is_word_char loc) (tok @ l) (line_tokens_from loc True l tok)"
proof (induction l arbitrary: tok)
  case Nil
  show ?case
  proof (cases "tok = []")
    case True
    then show ?thesis using max_runs.no_run [of "[]" "is_word_char loc"] by simp
  next
    case False
    have "max_runs (is_word_char loc) [] []"
      using max_runs.no_run [of "[]" "is_word_char loc"] by simp
    with max_runs.run [of "[]" "is_word_char loc" tok "[]" "[]"] False Nil
    show ?thesis by simp
  qed
next
  case (Cons ch l)
  show ?case
  proof (cases "is_word_char loc ch")
    case True
    with Cons.prems have "\<forall>c\<in>set (tok @ [ch]). is_word_char loc c" by simp
    from Cons.IH [OF this] True show ?thesis by simp
  next
    case False
    have "max_runs (is_word_char loc) ([] @ l) (line_tokens_from loc True l [])"
      by (rule Cons.IH) simp
    then have r: "max_runs (is_word_char loc) (ch # l) (line_tokens_from loc True l [])"
      using False by (simp add: max_runs_separator)
    show ?thesis
    proof (cases "tok = []")
      case True
      with r False show ?thesis by simp
    next
      case tok: False
      from max_runs.run [of "[]" "is_word_char loc" tok "ch # l" "line_tokens_from loc True l []"]
        tok Cons.prems False r
      show ?thesis by simp
    qed
  qed
qed

lemma max_runs_line_tokens:
  "max_runs (is_word_char loc) l (line_tokens loc True l)"
  using max_runs_line_tokens_from [of "[]" loc l] by (simp add: line_tokens_def)

lemma file_lines_Nil [simp]: "file_lines [] = []"
  by (simp add: file_lines.simps [of "[]"] getline_def)

lemma file_lines_no_newline: "l \<in> set (file_lines s) \<Longrightarrow> CHR ''\<newline>'' \<notin> set l"
proof (induction s rule: file_lines.induct)
  case (1 s)
  show ?case
  proof (cases "getline s")
    case None
    with "1.prems" show ?thesis by (simp add: file_lines.simps [of s])
  next
    case (Some p)
    obtain line rest where p: "p = (line, rest)" by (cases p)
    from Some p have line: "line = takeWhile (\<lambda>c. c \<noteq> CHR ''\<newline>'') s"
      by (auto simp: getline_def split: if_splits)
    from "1.prems" Some p have "l = line \<or> l \<in> set (file_lines rest)"
      by (simp add: file_lines.simps [of s])
    then show ?thesis
    proof
      assume "l = line"
      then show ?thesis using line by (auto dest: set_takeWhileD)
    next
      assume "l \<in> set (file_lines rest)"
      then show ?thesis by (rule "1.IH" [OF Some p [symmetric]])
    qed
  qed
qed

lemma file_lines_join:
  "s = concat (map (\<lambda>l. l @ ''\<newline>'') (file_lines s))
   \<or> s @ ''\<newline>'' = concat (map (\<lambda>l. l @ ''\<newline>'') (file_lines s))"
proof (induction s rule: file_lines.induct)
  case (1 s)
  show ?case
  proof (cases "getline s")
    case None
    then have "s = []" by (simp add: getline_def split: if_splits)
    then show ?thesis by simp
  next
    case (Some p)
    obtain line rest where p: "p = (line, rest)" by (cases p)
    let ?d = "dropWhile (\<lambda>c. c \<noteq> CHR ''\<newline>'') s"
    from Some p have line: "line = takeWhile (\<lambda>c. c \<noteq> CHR ''\<newline>'') s"
      and rest: "rest = drop 1 ?d"
      by (auto simp: getline_def split: if_splits)
    have s: "s = line @ ?d" by (simp add: line)
    have fl: "file_lines s = line # file_lines rest"
      using Some p by (simp add: file_lines.simps [of s])
    note IH = "1.IH" [OF Some p [symmetric]]
    show ?thesis
    proof (cases ?d)
      case Nil
      from rest have "rest = []" unfolding Nil by simp
      moreover from s have "s = line" unfolding Nil by simp
      ultimately show ?thesis using fl by simp
    next
      case (Cons c d')
      then have "c = CHR ''\<newline>''"
        using hd_dropWhile [of "\<lambda>c. c \<noteq> CHR ''\<newline>''" s] by auto
      with Cons rest s have "s = line @ ''\<newline>'' @ rest" by simp
      with IH fl show ?thesis by auto
    qed
  qed
qed

lemma line_tokens_from_agree:
  assumes "agrees_with_C_on loc S" and "set l \<subseteq> S"
  shows "line_tokens_from loc cs l tok = line_tokens_from C_locale cs l tok"
  using assms(2)
proof (induction l arbitrary: tok)
  case Nil
  then show ?case by simp
next
  case (Cons ch l)
  then have "ch \<in> S" by simp
  with assms(1) have "is_word_char loc ch = is_word_char C_locale ch"
    and "tolower loc ch = tolower C_locale ch"
    by (simp_all add: agrees_with_C_on_def is_word_char_def C_locale_def)
  with Cons show ?case by simp
qed

lemma file_lines_subset: "l \<in> set (file_lines s) \<Longrightarrow> set l \<subseteq> set s"
proof (induction s rule: file_lines.induct)
  case (1 s)
  show ?case
  proof (cases "getline s")
    case None
    with "1.prems" show ?thesis by (simp add: file_lines.simps [of s])
  next
    case (Some p)
    obtain line rest where p: "p = (line, rest)" by (cases p)
    from Some p have line: "line = takeWhile (\<lambda>c. c \<noteq> CHR ''\<newline>'') s"
      and rest: "rest = drop 1 (dropWhile (\<lambda>c. c \<noteq> CHR ''\<newline>'') s)"
      by (auto simp: getline_def split: if_splits)
    have "set rest \<subseteq> set s"
      unfolding rest by (meson set_drop_subset set_dropWhileD subsetD subsetI)
    moreover have "set line \<subseteq> set s"
      unfolding line by (auto dest: set_takeWhileD)
    moreover from "1.prems" Some p have "l = line \<or> l \<in> set (file_lines rest)"
      by (simp add: file_lines.simps [of s])
    ultimately show ?thesis
      using "1.IH" [OF Some p [symmetric]] by auto
  qed
qed

lemma file_tokens_agree:
  assumes "agrees_with_C_on loc S" and "set s \<subseteq> S"
  shows "file_tokens loc cs s = file_tokens C_locale cs s"
proof -
  have "map (line_tokens loc cs) (file_lines s) = map (line_tokens C_locale cs) (file_lines s)"
  proof (rule map_cong [OF refl])
    fix l assume "l \<in> set (file_lines s)"
    then have "set l \<subseteq> set s" by (rule file_lines_subset)
    with assms(2) have "set l \<subseteq> S" by auto
    with assms(1) show "line_tokens loc cs l = line_tokens C_locale cs l"
      by (simp add: line_tokens_def line_tokens_from_agree)
  qed
  then show ?thesis unfolding file_tokens_def by (rule arg_cong)
qed

lemma C_locale_agrees: "agrees_with_C_on C_locale S"
  by (simp add: agrees_with_C_on_def C_locale_def)

section \<open>The selector, by what it computes\<close>

lemma unat_u64_bound: "unat (c :: u64) \<le> 2 ^ 64 - 1"
  using unsigned_less [of c, where ?'a = nat] by simp

lemma top_k_comp_rank_key: "top_k_comp a b \<longleftrightarrow> rank_key a < rank_key b"
proof -
  have "unat (snd a) \<le> 2 ^ 64 - 1" "unat (snd b) \<le> 2 ^ 64 - 1"
    by (rule unat_u64_bound)+
  then show ?thesis
    by (auto simp: top_k_comp_def rank_key_def word_less_nat_alt word_unat_eq_iff)
qed

lemma inj_rank_key: "inj rank_key"
proof (rule injI)
  fix a b :: entry
  assume "rank_key a = rank_key b"
  moreover have "unat (snd a) \<le> 2 ^ 64 - 1" "unat (snd b) \<le> 2 ^ 64 - 1"
    by (rule unat_u64_bound)+
  ultimately have "unat (snd a) = unat (snd b)" "fst a = fst b"
    by (auto simp: rank_key_def)
  then show "a = b"
    by (simp add: prod_eq_iff word_unat_eq_iff)
qed

lemma rank_key_eq_iff [simp]: "rank_key a = rank_key b \<longleftrightarrow> a = b"
  using inj_rank_key by (auto dest: injD)

lemma filter_eq_replicate_count:
  "filter (\<lambda>x. k = x) xs = replicate (count_list xs k) k"
  by (induction xs) auto

lemma ranking_unique:
  assumes "mset ys = mset xs" and "sorted (map rank_key ys)"
  shows "ranking xs = ys"
  unfolding ranking_def
proof (rule properties_for_sort_key [OF assms(1) _ assms(2)])
  fix k assume "k \<in> set ys"
  have "count_list ys k = count_list xs k"
    using assms(1) by (metis count_mset)
  then show "filter (\<lambda>x. rank_key k = rank_key x) ys = filter (\<lambda>x. rank_key k = rank_key x) xs"
    by (simp add: filter_eq_replicate_count)
qed

lemma mset_ranking [simp]: "mset (ranking v) = mset v"
  by (simp add: ranking_def)

lemma set_ranking [simp]: "set (ranking v) = set v"
  by (simp add: ranking_def)

lemma length_ranking [simp]: "length (ranking v) = length v"
  by (simp add: ranking_def)

lemma sorted_ranking: "sorted (map rank_key (ranking v))"
  by (simp add: ranking_def)

lemma ranking_cong: "mset v = mset w \<Longrightarrow> ranking v = ranking w"
  by (rule ranking_unique) (simp_all add: sorted_ranking)

lemma ranking_least:
  assumes "b \<in> set v" and "\<forall>x\<in>set v. rank_key b \<le> rank_key x"
  shows "ranking v = b # ranking (remove1 b v)"
proof (rule ranking_unique)
  show "mset (b # ranking (remove1 b v)) = mset v"
    using assms(1) by simp
  have "\<forall>x\<in>set (remove1 b v). rank_key b \<le> rank_key x"
    using assms(2) by (auto dest: notin_set_remove1)
  then show "sorted (map rank_key (b # ranking (remove1 b v)))"
    by (simp add: sorted_ranking)
qed

lemma min_entry_in: "min_entry a bs \<in> set (a # bs)"
  by (induction bs arbitrary: a) auto

lemma min_entry_least: "x \<in> set (a # bs) \<Longrightarrow> rank_key (min_entry a bs) \<le> rank_key x"
proof (induction bs arbitrary: a x)
  case Nil
  then show ?case by simp
next
  case (Cons b bs)
  show ?case
  proof (cases "top_k_comp b a")
    case True
    then have "rank_key b < rank_key a" by (simp add: top_k_comp_rank_key)
    moreover have "rank_key (min_entry b bs) \<le> rank_key b"
      by (rule Cons.IH) simp
    moreover have "x \<in> set (b # bs) \<Longrightarrow> rank_key (min_entry b bs) \<le> rank_key x"
      by (rule Cons.IH)
    ultimately show ?thesis using True Cons.prems by auto
  next
    case False
    then have "rank_key a \<le> rank_key b" by (simp add: top_k_comp_rank_key not_less)
    moreover have "rank_key (min_entry a bs) \<le> rank_key a"
      by (rule Cons.IH) simp
    moreover have "x \<in> set (a # bs) \<Longrightarrow> rank_key (min_entry a bs) \<le> rank_key x"
      by (rule Cons.IH)
    ultimately show ?thesis using False Cons.prems by auto
  qed
qed

lemma length_partial_sort [simp]: "length (partial_sort m v) = length v"
proof (induction m v rule: partial_sort.induct)
  case (3 m a as)
  have "min_entry a as \<in> set (a # as)" by (rule min_entry_in)
  then have "length (remove1 (min_entry a as) (a # as)) = length as"
    by (simp add: length_remove1 del: remove1.simps)
  with 3 show ?case by (simp add: Let_def del: remove1.simps)
qed simp_all

lemma take_partial_sort: "take m (partial_sort m v) = take m (ranking v)"
proof (induction m v rule: partial_sort.induct)
  case (1 v)
  then show ?case by simp
next
  case (2 m)
  then show ?case by (simp add: ranking_def)
next
  case (3 m a as)
  let ?b = "min_entry a as"
  have "ranking (a # as) = ?b # ranking (remove1 ?b (a # as))"
    by (rule ranking_least) (auto intro: min_entry_in min_entry_least simp del: set_simps)
  with 3 show ?case by (simp add: Let_def del: remove1.simps)
qed

lemma top_k_ranking: "top_k iter fr k = take k (ranking (iter fr))"
proof (cases "k < length (iter fr)")
  case True
  then show ?thesis
    using take_partial_sort [of k "iter fr"] by (simp add: top_k_def Let_def min_def)
next
  case False
  then have "partial_sort (length (iter fr)) (iter fr) = ranking (iter fr)"
    using take_partial_sort [of "length (iter fr)" "iter fr"] by simp
  with False show ?thesis by (simp add: top_k_def Let_def min_def)
qed

lemma mset_partial_sort [simp]: "mset (partial_sort m v) = mset v"
proof (induction m v rule: partial_sort.induct)
  case (3 m a as)
  have "min_entry a as \<in> set (a # as)" by (rule min_entry_in)
  then have "add_mset (min_entry a as) (mset (remove1 (min_entry a as) (a # as))) = mset (a # as)"
    by (simp del: remove1.simps mset.simps)
  with 3 show ?case by (simp add: Let_def del: remove1.simps)
qed simp_all

text \<open>The model of \<^verbatim>\<open>std::partial_sort\<close> meets the contract of the standard.\<close>

lemma partial_sort_contract:
  assumes "m \<le> length v"
  shows "mset (partial_sort m v) = mset v
       \<and> sorted_wrt (\<lambda>a b. \<not> top_k_comp b a) (take m (partial_sort m v))
       \<and> (\<forall>a\<in>set (take m (partial_sort m v)). \<forall>b\<in>set (drop m (partial_sort m v)).
            \<not> top_k_comp b a)"
proof -
  let ?p = "partial_sort m v" and ?r = "ranking v"
  have t: "take m ?p = take m ?r" by (rule take_partial_sort)
  have le: "sorted_wrt (\<lambda>a b. \<not> top_k_comp b a) ?r"
  proof -
    have "sorted_wrt (\<le>) (map rank_key ?r)"
      using sorted_ranking [of v] by simp
    then show ?thesis
      unfolding sorted_wrt_map by (simp add: top_k_comp_rank_key not_less)
  qed
  have "mset (take m ?p) + mset (drop m ?p) = mset (take m ?r) + mset (drop m ?r)"
    unfolding mset_append [symmetric] append_take_drop_id by simp
  then have "mset (drop m ?p) = mset (drop m ?r)"
    unfolding t by simp
  then have d: "set (drop m ?p) = set (drop m ?r)"
    by (rule mset_eq_setD)
  have "sorted_wrt (\<lambda>a b. \<not> top_k_comp b a) (take m ?r @ drop m ?r)"
    using le by simp
  then have "sorted_wrt (\<lambda>a b. \<not> top_k_comp b a) (take m ?r)"
    and "\<forall>a\<in>set (take m ?r). \<forall>b\<in>set (drop m ?r). \<not> top_k_comp b a"
    unfolding sorted_wrt_append by blast+
  then show ?thesis
    unfolding t d by simp
qed

text \<open>
  Whatever vector \<open>v'\<close> the library leaves within its contract, the last line of
  \<^verbatim>\<open>top_k\<close> returns the first \<open>k\<close> entries of the full ranking.
\<close>

lemma top_k_any_partial_sort:
  assumes m: "m = min k (length v)"
    and p: "mset v' = mset v"
    and s: "sorted_wrt (\<lambda>a b. \<not> top_k_comp b a) (take m v')"
    and r: "\<forall>a\<in>set (take m v'). \<forall>b\<in>set (drop m v'). \<not> top_k_comp b a"
  shows "(if length v' > k then take k v' else v') = take k (ranking v)"
proof -
  let ?w = "take m v' @ ranking (drop m v')"
  have len: "length v' = length v"
    using p by (rule mset_eq_length)
  have "sorted (map rank_key (take m v'))"
    using s by (simp add: sorted_wrt_map top_k_comp_rank_key not_less)
  moreover have "\<forall>a\<in>set (take m v'). \<forall>b\<in>set (ranking (drop m v')). rank_key a \<le> rank_key b"
    using r by (simp add: top_k_comp_rank_key not_less)
  ultimately have "sorted (map rank_key ?w)"
    by (simp add: sorted_append sorted_ranking)
  moreover have "mset ?w = mset v"
  proof -
    have "mset ?w = mset (take m v') + mset (drop m v')" by simp
    also have "\<dots> = mset (take m v' @ drop m v')" by (simp only: mset_append)
    also have "\<dots> = mset v'" by (simp only: append_take_drop_id)
    finally show ?thesis using p by simp
  qed
  ultimately have "ranking v = ?w"
    by (rule ranking_unique [rotated])
  then have t: "take m (ranking v) = take m v'"
    using m len by simp
  show ?thesis
  proof (cases "length v' > k")
    case True
    with m len have "m = k" by simp
    with t True show ?thesis by simp
  next
    case False
    with m len have "m = length v'" by simp
    with t len False show ?thesis by simp
  qed
qed

lemma entries_in_order_mset:
  "entries_in_order fr v \<Longrightarrow> entries_in_order fr w \<Longrightarrow> mset v = mset w"
  using set_eq_iff_mset_eq_distinct [of v w] by (simp add: entries_in_order_def)

lemma entries_in_order_length: "entries_in_order fr v \<Longrightarrow> length v = card (dom fr)"
proof -
  assume h: "entries_in_order fr v"
  then have "length v = card (Map.graph fr)"
    by (simp add: entries_in_order_def distinct_card [symmetric])
  also have "\<dots> = card (fst ` Map.graph fr)"
    by (simp add: card_image inj_on_fst_graph)
  finally show ?thesis by (simp add: fst_graph_eq_dom)
qed

lemma sorted_wrt_ranking: "distinct v \<Longrightarrow> sorted_wrt top_k_comp (ranking v)"
proof -
  assume "distinct v"
  then have "distinct (ranking v)"
    by (simp add: ranking_def)
  then have "distinct (map rank_key (ranking v))"
    by (simp add: distinct_map inj_on_def)
  then have "sorted_wrt (<) (map rank_key (ranking v))"
    by (simp add: strict_sorted_iff sorted_ranking)
  then show ?thesis
    by (simp add: sorted_wrt_map top_k_comp_rank_key [abs_def])
qed

lemma top_k_comp_unfold:
  "top_k_comp a b \<longleftrightarrow> snd a > snd b \<or> (snd a = snd b \<and> fst a < fst b)"
  by (auto simp: top_k_comp_def)

section \<open>The examples, evaluated\<close>

lemmas C_locale_simps =
  is_word_char_def C_locale_def ascii_alnum_def ascii_upper_def ascii_lower_def
  ascii_digit_def ascii_tolower_def ascii_space_def

lemma demo_files [simp]: "files (demo_env content sz order) (input_path demo_config) = Some content"
  by (simp add: demo_env_def demo_config_def default_config_def)

lemma graph_tally: "Map.graph (tally ts) = (\<lambda>k. (k, of_nat (count_list ts k))) ` set ts"
  by (auto simp: Map.graph_def tally_def split: if_splits)

lemma scenario_lines: "file_lines scenario_file = [''Hello hello WORLD'', ''world world'']"
  by (simp add: scenario_file_def file_lines.simps getline_def)

lemma scenario_tokens:
  "file_tokens C_locale False scenario_file = [''hello'', ''hello'', ''world'', ''world'', ''world'']"
  by (simp add: scenario_file_def file_tokens_def file_lines.simps getline_def line_tokens_def
      C_locale_simps char_of_eq_iff)

lemma scenario_top_k:
  assumes "entries_in_order (tally [''hello'', ''hello'', ''world'', ''world'', ''world'']) (iter (tally [''hello'', ''hello'', ''world'', ''world'', ''world'']))"
  shows "top_k iter (tally [''hello'', ''hello'', ''world'', ''world'', ''world'']) 2
       = [(''world'', 3), (''hello'', 2)]"
proof -
  let ?fr = "tally [''hello'', ''hello'', ''world'', ''world'', ''world'']"
  have g: "Map.graph ?fr = set [(''hello'', 2), (''world'', 3)]"
    by (simp add: graph_tally)
  have "distinct [(''hello'', 2::u64), (''world'', 3)]" by simp
  with assms have "mset (iter ?fr) = mset [(''hello'', 2), (''world'', 3)]"
    unfolding entries_in_order_def g
    using set_eq_iff_mset_eq_distinct [of "iter ?fr" "[(''hello'', 2), (''world'', 3)]"] by blast
  then have "ranking (iter ?fr) = ranking [(''hello'', 2), (''world'', 3)]"
    by (rule ranking_cong)
  also have "\<dots> = [(''world'', 3), (''hello'', 2)]"
    by (simp add: ranking_def rank_key_def)
  finally show ?thesis by (simp add: top_k_ranking)
qed

section \<open>The command line, by what it computes\<close>

lemma parse_loop_silent:
  "parse_loop loc exe conf args = Returned True conf' err \<Longrightarrow> err = []"
proof (induction loc exe conf args rule: parse_loop.induct)
  case (1 loc exe conf)
  then show ?case by simp
next
  case (2 loc exe conf a rest)
  then show ?case
    by (auto split: if_splits sum.splits)
qed

lemma parse_args_silent:
  "parse_args loc exe args = Returned True conf err \<Longrightarrow> err = []"
  by (auto simp: parse_args_def split: list.splits dest: parse_loop_silent)

lemma top_without_value_is_usage_error:
  "parse_args loc exe [path, ''--top'']
     = Returned False (default_config\<lparr>input_path := path\<rparr>) ''Unknown argument: --top\<newline>''
   \<and> main env exe [path, ''--top'']
     = \<lparr>ending = Exit 1, stdout = print_help exe, stderr = ''Unknown argument: --top\<newline>'',
        written = None\<rparr>"
  by (simp add: parse_args_def main_def)

lemma C_locale_word_char: "is_word_char C_locale c \<longleftrightarrow> ascii_alnum c"
  by (simp add: is_word_char_def C_locale_def)

section \<open>The claims about the tokenizer and the counts\<close>

text \<open>
  Claim C2. The claim: a byte is a word character if and only if it is an ASCII letter
  or an ASCII digit, every other byte being a separator. \<^verbatim>\<open>is_word_char\<close> asks
  \<^verbatim>\<open>std::isalnum\<close>, which answers for the locale \<^verbatim>\<open>main\<close> has installed from the
  environment: in the "C" locale it is the claim's set (lemma \<open>C_locale_word_char\<close>),
  but in an ISO-8859-1 locale the byte 0xE9 (e with an acute accent) is a word character,
  and a line of the bytes \<open>c a f 0xE9\<close>, a blank and \<open>a\<close> has a token of four bytes.
\<close>

theorem word_char_follows_locale:
  "is_word_char latin1_locale (CHR 0xE9) \<and> \<not> ascii_alnum (CHR 0xE9)
   \<and> line_tokens latin1_locale True [CHR ''c'', CHR ''a'', CHR ''f'', CHR 0xE9, CHR '' '', CHR ''a'']
       = [[CHR ''c'', CHR ''a'', CHR ''f'', CHR 0xE9], [CHR ''a'']]"
  by (simp add: is_word_char_def latin1_locale_def latin1_letter_def ascii_alnum_def
      ascii_upper_def ascii_lower_def ascii_digit_def line_tokens_def)

text \<open>
  Claim C3. For every input file that opens: the lines are the pieces of the file between
  line feeds; the statistics are those of flushing, line after line, the tokens of each
  line; the tokens of a line are its maximal runs of word characters, in order (folded to
  lower case in case-insensitive mode), so that no token holds a line feed or bytes of two
  lines; and the loop body for one line flushes exactly that line's tokens. For the file
  \<open>Hello hello WORLD\<newline>world world\<newline>\<close> in case-insensitive mode, in every locale that
  treats the bytes of this file as the "C" locale does, the result is 2 lines, 5 words
  and, with the top 2 requested, world 3 and hello 2.
\<close>

theorem tokens_are_runs_of_one_line:
  assumes "files env (input_path conf) = Some content"
  shows "(\<exists>st. analyze_file env conf = Inr st
           \<and> lines st = of_nat (length (file_lines content))
           \<and> words st = of_nat (length (concat (map (line_tokens (env_locale env) (case_sensitive conf)) (file_lines content))))
           \<and> freq st = tally (concat (map (line_tokens (env_locale env) (case_sensitive conf)) (file_lines content))))
       \<and> (content = concat (map (\<lambda>l. l @ ''\<newline>'') (file_lines content))
            \<or> content @ ''\<newline>'' = concat (map (\<lambda>l. l @ ''\<newline>'') (file_lines content)))
       \<and> (\<forall>line\<in>set (file_lines content).
             CHR ''\<newline>'' \<notin> set line
           \<and> max_runs (is_word_char (env_locale env)) line (line_tokens (env_locale env) True line)
           \<and> line_tokens (env_locale env) False line
               = map (map (tolower (env_locale env))) (line_tokens (env_locale env) True line))
       \<and> (\<forall>st0 line. scan_line (env_locale env) (case_sensitive conf) st0 line
             = (fold flush (line_tokens (env_locale env) (case_sensitive conf) line) st0)
                 \<lparr>lines := lines st0 + 1\<rparr>)
       \<and> (content = scenario_file \<and> agrees_with_C_on (env_locale env) (set scenario_file) \<and> \<not> case_sensitive conf \<longrightarrow>
            (\<exists>st. analyze_file env conf = Inr st \<and> lines st = 2 \<and> words st = 5
               \<and> (entries_in_order (freq st) (table_order env (freq st)) \<longrightarrow>
                    top_k (table_order env) (freq st) 2 = [(''world'', 3), (''hello'', 2)])))"
proof -
  have 1: "\<exists>st. analyze_file env conf = Inr st
           \<and> lines st = of_nat (length (file_lines content))
           \<and> words st = of_nat (length (concat (map (line_tokens (env_locale env) (case_sensitive conf)) (file_lines content))))
           \<and> freq st = tally (concat (map (line_tokens (env_locale env) (case_sensitive conf)) (file_lines content)))"
    by (simp add: analyze_file_result [OF assms] file_tokens_def)
  have 2: "content = concat (map (\<lambda>l. l @ ''\<newline>'') (file_lines content))
            \<or> content @ ''\<newline>'' = concat (map (\<lambda>l. l @ ''\<newline>'') (file_lines content))"
    by (rule file_lines_join)
  have 3: "\<forall>line\<in>set (file_lines content).
             CHR ''\<newline>'' \<notin> set line
           \<and> max_runs (is_word_char (env_locale env)) line (line_tokens (env_locale env) True line)
           \<and> line_tokens (env_locale env) False line
               = map (map (tolower (env_locale env))) (line_tokens (env_locale env) True line)"
    by (intro ballI conjI file_lines_no_newline max_runs_line_tokens line_tokens_fold)
  have 4: "\<forall>st0 line. scan_line (env_locale env) (case_sensitive conf) st0 line
             = (fold flush (line_tokens (env_locale env) (case_sensitive conf) line) st0)
                 \<lparr>lines := lines st0 + 1\<rparr>"
    by (simp add: scan_line_tokens)
  have 5: "content = scenario_file \<and> agrees_with_C_on (env_locale env) (set scenario_file) \<and> \<not> case_sensitive conf \<longrightarrow>
            (\<exists>st. analyze_file env conf = Inr st \<and> lines st = 2 \<and> words st = 5
               \<and> (entries_in_order (freq st) (table_order env (freq st)) \<longrightarrow>
                    top_k (table_order env) (freq st) 2 = [(''world'', 3), (''hello'', 2)]))"
  proof
    assume h: "content = scenario_file \<and> agrees_with_C_on (env_locale env) (set scenario_file) \<and> \<not> case_sensitive conf"
    then have o: "files env (input_path conf) = Some scenario_file"
      and c: "case_sensitive conf = False"
      using assms by simp_all
    from h have l: "file_tokens (env_locale env) False scenario_file
        = file_tokens C_locale False scenario_file"
      by (simp add: file_tokens_agree [of _ "set scenario_file"])
    from analyze_file_result [OF o] show "\<exists>st. analyze_file env conf = Inr st \<and> lines st = 2 \<and> words st = 5
               \<and> (entries_in_order (freq st) (table_order env (freq st)) \<longrightarrow>
                    top_k (table_order env) (freq st) 2 = [(''world'', 3), (''hello'', 2)])"
      by (simp add: l c scenario_tokens scenario_lines scenario_top_k)
  qed
  from 1 2 3 4 5 show ?thesis by (intro conjI)
qed

theorem tokens_are_runs_of_one_line_witness:
  "files (demo_env scenario_file (Some 30) [(''hello'', 2), (''world'', 3)]) (input_path demo_config)
     = Some scenario_file
   \<and> (\<exists>st. analyze_file (demo_env scenario_file (Some 30) [(''hello'', 2), (''world'', 3)]) demo_config = Inr st
         \<and> lines st = 2 \<and> words st = 5
         \<and> entries_in_order (freq st) [(''hello'', 2), (''world'', 3)]
         \<and> top_k (\<lambda>fr. [(''hello'', 2), (''world'', 3)]) (freq st) 2 = [(''world'', 3), (''hello'', 2)])"
proof -
  let ?env = "demo_env scenario_file (Some 30) [(''hello'', 2), (''world'', 3)]"
  have h: "files ?env (input_path demo_config) = Some scenario_file"
    by simp
  have s: "scenario_file = scenario_file \<and> agrees_with_C_on (env_locale ?env) (set scenario_file)
      \<and> \<not> case_sensitive demo_config"
    by (simp add: demo_env_def demo_config_def default_config_def C_locale_agrees)
  have loc: "env_locale ?env = C_locale" "case_sensitive demo_config = False"
    by (simp_all add: demo_env_def demo_config_def default_config_def)
  have t: "table_order ?env = (\<lambda>fr. [(''hello'', 2), (''world'', 3)])"
    by (simp add: demo_env_def)
  note inst = tokens_are_runs_of_one_line [OF h]
  from inst have "\<exists>st. analyze_file ?env demo_config = Inr st \<and> lines st = 2 \<and> words st = 5
               \<and> (entries_in_order (freq st) (table_order ?env (freq st)) \<longrightarrow>
                    top_k (table_order ?env) (freq st) 2 = [(''world'', 3), (''hello'', 2)])"
    using s by blast
  then obtain st where st: "analyze_file ?env demo_config = Inr st" "lines st = 2" "words st = 5"
    "entries_in_order (freq st) (table_order ?env (freq st)) \<longrightarrow>
        top_k (table_order ?env) (freq st) 2 = [(''world'', 3), (''hello'', 2)]"
    by blast
  from inst st(1) have f: "freq st = tally (concat (map (line_tokens (env_locale ?env) (case_sensitive demo_config)) (file_lines scenario_file)))"
    by auto
  have "freq st = tally [''hello'', ''hello'', ''world'', ''world'', ''world'']"
    using scenario_tokens unfolding f loc file_tokens_def by simp
  then have e: "entries_in_order (freq st) [(''hello'', 2), (''world'', 3)]"
    by (simp add: entries_in_order_def graph_tally)
  with st(4) have "top_k (\<lambda>fr. [(''hello'', 2), (''world'', 3)]) (freq st) 2 = [(''world'', 3), (''hello'', 2)]"
    unfolding t by simp
  with h st(1-3) e show ?thesis by blast
qed

text \<open>
  Claim C4. For every input file that opens and every configuration, the word count of
  the result is the sum of the counts in its frequency table: in the 64-bit arithmetic of
  the counters always, and as numbers whenever the file is shorter than \<open>2 ^ 64\<close> bytes.
\<close>

theorem words_equal_sum_of_counts:
  assumes "files env (input_path conf) = Some content"
  shows "\<exists>st. analyze_file env conf = Inr st
           \<and> words st = (\<Sum>k\<in>dom (freq st). the (freq st k))
           \<and> (length content < 2 ^ 64 \<longrightarrow>
                unat (words st) = (\<Sum>k\<in>dom (freq st). unat (the (freq st k))))"
proof -
  let ?ts = "file_tokens (env_locale env) (case_sensitive conf) content"
  have "length ?ts \<le> length content" by (rule length_file_tokens)
  then have "length content < 2 ^ 64 \<longrightarrow>
      unat (of_nat (length ?ts) :: u64) = (\<Sum>k\<in>dom (tally ?ts). unat (the (tally ?ts k)))"
    by (simp add: sum_unat_tally unat_of_nat_u64 del: dom_tally)
  then show ?thesis
    unfolding analyze_file_result [OF assms] by (simp add: sum_tally del: dom_tally)
qed

theorem words_equal_sum_of_counts_witness:
  "files (demo_env ''b b a a'' None []) (input_path demo_config) = Some ''b b a a''
   \<and> length ''b b a a'' < (2::nat) ^ 64
   \<and> (\<exists>st. analyze_file (demo_env ''b b a a'' None []) demo_config = Inr st
         \<and> words st = (\<Sum>k\<in>dom (freq st). the (freq st k))
         \<and> unat (words st) = (\<Sum>k\<in>dom (freq st). unat (the (freq st k))))"
proof -
  have h: "files (demo_env ''b b a a'' None []) (input_path demo_config) = Some ''b b a a''"
    by simp
  have l: "length ''b b a a'' < (2::nat) ^ 64" by simp
  from words_equal_sum_of_counts [OF h] l h show ?thesis by blast
qed

text \<open>
  Claim C5. For every input file that opens, the case-insensitive and the case-sensitive
  analysis give the same word count, and the case-insensitive one has no more distinct
  tokens than the case-sensitive one.
\<close>

theorem case_folding_keeps_word_count:
  assumes "files env (input_path conf) = Some content"
  shows "\<exists>a b. analyze_file env (conf\<lparr>case_sensitive := False\<rparr>) = Inr a
             \<and> analyze_file env (conf\<lparr>case_sensitive := True\<rparr>) = Inr b
             \<and> words a = words b
             \<and> card (dom (freq a)) \<le> card (dom (freq b))"
proof -
  let ?ts = "file_tokens (env_locale env) True content"
  have f: "file_tokens (env_locale env) False content = map (map (tolower (env_locale env))) ?ts"
    by (rule file_tokens_fold)
  have "card (map (tolower (env_locale env)) ` set ?ts) \<le> card (set ?ts)"
    by (rule card_image_le) simp
  then show ?thesis
    using assms by (simp add: analyze_file_result f)
qed

theorem case_folding_keeps_word_count_witness:
  "files (demo_env ''Hello hello'' None []) (input_path demo_config) = Some ''Hello hello''
   \<and> (\<exists>a b. analyze_file (demo_env ''Hello hello'' None []) (demo_config\<lparr>case_sensitive := False\<rparr>) = Inr a
             \<and> analyze_file (demo_env ''Hello hello'' None []) (demo_config\<lparr>case_sensitive := True\<rparr>) = Inr b
             \<and> words a = words b
             \<and> card (dom (freq a)) \<le> card (dom (freq b)))"
proof -
  have h: "files (demo_env ''Hello hello'' None []) (input_path demo_config) = Some ''Hello hello''"
    by simp
  from case_folding_keeps_word_count [OF h] h show ?thesis by blast
qed




section \<open>The claims about the command line\<close>

text \<open>
  Claim C8. For every path that cannot be opened for reading: \<^verbatim>\<open>parse_args\<close> accepts
  the path (it never looks at the file system), \<^verbatim>\<open>analyze_file\<close> throws the error that
  names the path, and on every command line that \<^verbatim>\<open>parse_args\<close> accepts with this
  path the run ends with exit code 2, the message prefixed \<open>Error: \<close> on standard
  error, and nothing on standard output.
\<close>

theorem unopenable_input_exits_2:
  assumes "files env path = None"
  shows "parse_args (env_locale env) exe [path]
           = Returned True (default_config\<lparr>input_path := path\<rparr>) []
       \<and> analyze_file env (default_config\<lparr>input_path := path\<rparr>)
           = Inl (runtime_error (''Cannot open input file: '' @ path))
       \<and> (\<forall>args conf err.
             parse_args (env_locale env) exe args = Returned True conf err \<and> input_path conf = path
             \<longrightarrow> main env exe args
                 = \<lparr>ending = Exit 2, stdout = [],
                    stderr = ''Error: Cannot open input file: '' @ path @ ''\<newline>'',
                    written = None\<rparr>)"
proof (intro conjI allI impI)
  show "parse_args (env_locale env) exe [path]
           = Returned True (default_config\<lparr>input_path := path\<rparr>) []"
    by (simp add: parse_args_def)
  show "analyze_file env (default_config\<lparr>input_path := path\<rparr>)
           = Inl (runtime_error (''Cannot open input file: '' @ path))"
    using assms by (simp add: analyze_file_def)
next
  fix args conf err
  assume h: "parse_args (env_locale env) exe args = Returned True conf err \<and> input_path conf = path"
  then have "err = []" by (auto dest: parse_args_silent)
  moreover have "analyze_file env conf = Inl (runtime_error (''Cannot open input file: '' @ path))"
    using assms h by (simp add: analyze_file_def)
  ultimately show "main env exe args
                 = \<lparr>ending = Exit 2, stdout = [],
                    stderr = ''Error: Cannot open input file: '' @ path @ ''\<newline>'',
                    written = None\<rparr>"
    using h by (simp add: main_def what_def)
qed

theorem unopenable_input_exits_2_witness:
  "files (demo_env ''a'' None []) ''missing.txt'' = None
   \<and> parse_args (env_locale (demo_env ''a'' None [])) ''file_stats'' [''missing.txt'', ''--top'', ''3'']
       = Returned True \<lparr>input_path = ''missing.txt'', json_path = [], topN = 3, case_sensitive = False\<rparr> []
   \<and> main (demo_env ''a'' None []) ''file_stats'' [''missing.txt'', ''--top'', ''3'']
       = \<lparr>ending = Exit 2, stdout = [],
          stderr = ''Error: Cannot open input file: missing.txt\<newline>'', written = None\<rparr>"
proof -
  let ?env = "demo_env ''a'' None []"
  have h: "files ?env ''missing.txt'' = None"
    by (simp add: demo_env_def)
  have p: "parse_args (env_locale ?env) ''file_stats'' [''missing.txt'', ''--top'', ''3'']
       = Returned True \<lparr>input_path = ''missing.txt'', json_path = [], topN = 3, case_sensitive = False\<rparr> []"
    by (simp add: demo_env_def parse_args_def stoul_def default_config_def C_locale_simps)
  have "main ?env ''file_stats'' [''missing.txt'', ''--top'', ''3'']
       = \<lparr>ending = Exit 2, stdout = [],
          stderr = ''Error: Cannot open input file: '' @ ''missing.txt'' @ ''\<newline>'', written = None\<rparr>"
    using unopenable_input_exits_2 [OF h, of "''file_stats''"] p by simp
  with h p show ?thesis by simp
qed

text \<open>
  Claim C9. The claim: a \<open>--top\<close> without a value, or with a value that is not a
  non-negative integer, is a usage error, reported with the help text and exit code 1.
  That holds when the value is missing (lemma \<open>top_without_value_is_usage_error\<close>).
  A value that is not a number makes \<^verbatim>\<open>std::stoul\<close> throw inside \<^verbatim>\<open>parse_args\<close>,
  outside the \<^verbatim>\<open>try\<close> block of \<^verbatim>\<open>main\<close>: the process is terminated, without help text
  or exit code. A negative value and a number followed by other characters are accepted.
\<close>

theorem top_value_not_validated:
  "main (demo_env ''a'' None []) ''file_stats'' [''in.txt'', ''--top'', ''abc'']
     = \<lparr>ending = Terminate invalid_argument, stdout = [], stderr = [], written = None\<rparr>
   \<and> main (demo_env ''a'' None []) ''file_stats'' [''in.txt'', ''--top'', ''99999999999999999999'']
     = \<lparr>ending = Terminate out_of_range, stdout = [], stderr = [], written = None\<rparr>
   \<and> parse_args C_locale ''file_stats'' [''in.txt'', ''--top'', ''-5'']
     = Returned True
         \<lparr>input_path = ''in.txt'', json_path = [], topN = 18446744073709551611,
            case_sensitive = False\<rparr> []
   \<and> parse_args C_locale ''file_stats'' [''in.txt'', ''--top'', ''12abc'']
     = Returned True
         \<lparr>input_path = ''in.txt'', json_path = [], topN = 12, case_sensitive = False\<rparr> []"
  by (simp add: main_def demo_env_def parse_args_def stoul_def default_config_def C_locale_simps)

section \<open>The claims about the Top-K selector\<close>

text \<open>
  Claim C1. For every frequency table, in whatever order the table yields its entries,
  and every requested count \<open>k\<close>, \<^verbatim>\<open>top_k\<close> returns at most \<open>k\<close> entries of the
  table, sorted by count descending with ties broken by word ascending in the
  byte-lexicographic order; every entry it leaves out ranks after every entry it returns.
  When \<open>k\<close> is at least the number of distinct words it returns all the entries, and for
  an empty table it returns the empty sequence.
\<close>

theorem top_k_ranked:
  assumes "entries_in_order fr (iter fr)"
  shows "length (top_k iter fr k) \<le> k
       \<and> sorted_wrt (\<lambda>a b. snd a > snd b \<or> (snd a = snd b \<and> fst a < fst b)) (top_k iter fr k)
       \<and> set (top_k iter fr k) \<subseteq> Map.graph fr
       \<and> (\<forall>a\<in>set (top_k iter fr k). \<forall>b\<in>Map.graph fr - set (top_k iter fr k).
            snd a > snd b \<or> (snd a = snd b \<and> fst a < fst b))
       \<and> (card (dom fr) \<le> k \<longrightarrow>
            set (top_k iter fr k) = Map.graph fr \<and> length (top_k iter fr k) = card (dom fr))
       \<and> (fr = Map.empty \<longrightarrow> top_k iter fr k = [])"
proof -
  let ?v = "iter fr" and ?r = "top_k iter fr k"
  have r: "?r = take k (ranking ?v)" by (rule top_k_ranking)
  have d: "distinct ?v" and s: "set ?v = Map.graph fr"
    using assms by (simp_all add: entries_in_order_def)
  have len: "length ?v = card (dom fr)"
    using assms by (rule entries_in_order_length)
  have whole: "sorted_wrt top_k_comp (take k (ranking ?v) @ drop k (ranking ?v))"
    using sorted_wrt_ranking [OF d] by simp
  have 1: "length ?r \<le> k" by (simp add: r)
  have 2: "sorted_wrt top_k_comp ?r"
    using whole unfolding r sorted_wrt_append by simp
  have 3: "set ?r \<subseteq> Map.graph fr"
    using set_take_subset [of k "ranking ?v"] by (simp add: r s)
  have 4: "\<forall>a\<in>set ?r. \<forall>b\<in>Map.graph fr - set ?r. top_k_comp a b"
  proof (intro ballI)
    fix a b assume a: "a \<in> set ?r" and b: "b \<in> Map.graph fr - set ?r"
    have "set (ranking ?v) = set (take k (ranking ?v)) \<union> set (drop k (ranking ?v))"
      by (metis append_take_drop_id set_append)
    with b have "b \<in> set (drop k (ranking ?v))" by (auto simp: r s)
    with a whole show "top_k_comp a b" unfolding r sorted_wrt_append by blast
  qed
  have 5: "card (dom fr) \<le> k \<longrightarrow> set ?r = Map.graph fr \<and> length ?r = card (dom fr)"
    by (simp add: r len [symmetric] s)
  have 6: "fr = Map.empty \<longrightarrow> ?r = []"
  proof
    assume "fr = Map.empty"
    with len have "?v = []" by simp
    then show "?r = []" by (simp add: r ranking_def)
  qed
  from 1 2 3 4 5 6 show ?thesis
    unfolding top_k_comp_unfold [abs_def] by blast
qed

theorem top_k_ranked_witness:
  "entries_in_order (map_of [(''b'', 2), (''a'', 2), (''c'', 1)])
      [(''c'', 1), (''b'', 2), (''a'', 2)]
   \<and> top_k (\<lambda>fr. [(''c'', 1), (''b'', 2), (''a'', 2)])
        (map_of [(''b'', 2), (''a'', 2), (''c'', 1)]) 2 = [(''a'', 2), (''b'', 2)]
   \<and> length (top_k (\<lambda>fr. [(''c'', 1), (''b'', 2), (''a'', 2)])
        (map_of [(''b'', 2), (''a'', 2), (''c'', 1)]) 2) \<le> 2
   \<and> set (top_k (\<lambda>fr. [(''c'', 1), (''b'', 2), (''a'', 2)])
        (map_of [(''b'', 2), (''a'', 2), (''c'', 1)]) 2)
        \<subseteq> Map.graph (map_of [(''b'', 2), (''a'', 2), (''c'', 1)])"
proof -
  have g: "Map.graph (map_of [(''b'', 2::u64), (''a'', 2), (''c'', 1)])
      = set [(''b'', 2), (''a'', 2), (''c'', 1)]"
    by (rule graph_map_of_if_distinct_dom) simp
  have h: "entries_in_order (map_of [(''b'', 2), (''a'', 2), (''c'', 1)])
      ((\<lambda>fr. [(''c'', 1), (''b'', 2), (''a'', 2)]) (map_of [(''b'', 2), (''a'', 2), (''c'', 1)]))"
    unfolding entries_in_order_def g by auto
  have e: "top_k (\<lambda>fr. [(''c'', 1), (''b'', 2), (''a'', 2)])
        (map_of [(''b'', 2), (''a'', 2), (''c'', 1)]) 2 = [(''a'', 2), (''b'', 2)]"
    by (simp add: top_k_ranking ranking_def rank_key_def)
  note t = top_k_ranked [OF h, of 2]
  have a: "length (top_k (\<lambda>fr. [(''c'', 1), (''b'', 2), (''a'', 2)])
        (map_of [(''b'', 2), (''a'', 2), (''c'', 1)]) 2) \<le> 2"
    by (rule t [THEN conjunct1])
  have b: "set (top_k (\<lambda>fr. [(''c'', 1), (''b'', 2), (''a'', 2)])
        (map_of [(''b'', 2), (''a'', 2), (''c'', 1)]) 2)
        \<subseteq> Map.graph (map_of [(''b'', 2), (''a'', 2), (''c'', 1)])"
    by (rule t [THEN conjunct2, THEN conjunct2, THEN conjunct1])
  from h e a b show ?thesis by (intro conjI)
qed

text \<open>
  Claim C6. For every frequency table and all requested counts \<open>K1 < K2\<close>, the first
  \<open>K1\<close> entries of the output of \<^verbatim>\<open>top_k\<close> for \<open>K2\<close> are its whole output for \<open>K1\<close>.
\<close>

theorem top_k_prefix:
  assumes "K1 < K2"
  shows "take K1 (top_k iter fr K2) = top_k iter fr K1"
  using assms by (simp add: top_k_ranking min_def)

theorem top_k_prefix_witness:
  "(1::nat) < 2
   \<and> take 1 (top_k (\<lambda>fr. [(''c'', 1), (''b'', 2), (''a'', 2)]) (map_of [(''b'', 2), (''a'', 2), (''c'', 1)]) 2)
      = top_k (\<lambda>fr. [(''c'', 1), (''b'', 2), (''a'', 2)]) (map_of [(''b'', 2), (''a'', 2), (''c'', 1)]) 1
   \<and> top_k (\<lambda>fr. [(''c'', 1), (''b'', 2), (''a'', 2)]) (map_of [(''b'', 2), (''a'', 2), (''c'', 1)]) 1
      = [(''a'', 2)]"
proof -
  have h: "(1::nat) < 2" by simp
  have e: "top_k (\<lambda>fr. [(''c'', 1), (''b'', 2), (''a'', 2)])
        (map_of [(''b'', 2), (''a'', 2), (''c'', 1)]) 1 = [(''a'', 2)]"
    by (simp add: top_k_ranking ranking_def rank_key_def)
  have p: "take 1 (top_k (\<lambda>fr. [(''c'', 1), (''b'', 2), (''a'', 2)]) (map_of [(''b'', 2), (''a'', 2), (''c'', 1)]) 2)
      = top_k (\<lambda>fr. [(''c'', 1), (''b'', 2), (''a'', 2)]) (map_of [(''b'', 2), (''a'', 2), (''c'', 1)]) 1"
    by (rule top_k_prefix [OF h])
  from h p e show ?thesis by (intro conjI)
qed

text \<open>
  Claim C10. The output of \<^verbatim>\<open>top_k\<close> is a function of the entries of the table alone:
  two iteration orders of the same table give the same output, and its length is the
  minimum of \<open>k\<close> and the number of distinct words.
\<close>

theorem top_k_deterministic:
  assumes "entries_in_order fr (iter1 fr)" and "entries_in_order fr (iter2 fr)"
  shows "top_k iter1 fr k = top_k iter2 fr k
       \<and> length (top_k iter1 fr k) = min k (card (dom fr))"
proof -
  have "ranking (iter1 fr) = ranking (iter2 fr)"
    using assms by (intro ranking_cong entries_in_order_mset)
  moreover have "length (ranking (iter1 fr)) = card (dom fr)"
    using assms(1) by (simp add: entries_in_order_length)
  ultimately show ?thesis
    by (simp add: top_k_ranking min.commute del: length_ranking)
qed

theorem top_k_deterministic_witness:
  "entries_in_order (map_of [(''b'', 2), (''a'', 2), (''c'', 1)]) [(''c'', 1), (''b'', 2), (''a'', 2)]
   \<and> entries_in_order (map_of [(''b'', 2), (''a'', 2), (''c'', 1)]) [(''a'', 2), (''c'', 1), (''b'', 2)]
   \<and> top_k (\<lambda>fr. [(''c'', 1), (''b'', 2), (''a'', 2)]) (map_of [(''b'', 2), (''a'', 2), (''c'', 1)]) 2
      = top_k (\<lambda>fr. [(''a'', 2), (''c'', 1), (''b'', 2)]) (map_of [(''b'', 2), (''a'', 2), (''c'', 1)]) 2
   \<and> length (top_k (\<lambda>fr. [(''c'', 1), (''b'', 2), (''a'', 2)]) (map_of [(''b'', 2), (''a'', 2), (''c'', 1)]) 2) = 2"
proof -
  have g: "Map.graph (map_of [(''b'', 2::u64), (''a'', 2), (''c'', 1)])
      = set [(''b'', 2), (''a'', 2), (''c'', 1)]"
    by (rule graph_map_of_if_distinct_dom) simp
  have h1: "entries_in_order (map_of [(''b'', 2), (''a'', 2), (''c'', 1)])
      ((\<lambda>fr. [(''c'', 1), (''b'', 2), (''a'', 2)]) (map_of [(''b'', 2), (''a'', 2), (''c'', 1)]))"
    unfolding entries_in_order_def g by auto
  have h2: "entries_in_order (map_of [(''b'', 2), (''a'', 2), (''c'', 1)])
      ((\<lambda>fr. [(''a'', 2), (''c'', 1), (''b'', 2)]) (map_of [(''b'', 2), (''a'', 2), (''c'', 1)]))"
    unfolding entries_in_order_def g by auto
  have c: "card (dom (map_of [(''b'', 2::u64), (''a'', 2), (''c'', 1)])) = 3"
    by (simp add: dom_map_of_conv_image_fst)
  have m: "min 2 (card (dom (map_of [(''b'', 2::u64), (''a'', 2), (''c'', 1)]))) = 2"
    unfolding c by simp
  note t = top_k_deterministic [OF h1 h2, of 2, unfolded m]
  from h1 h2 t [THEN conjunct1] t [THEN conjunct2] show ?thesis by (intro conjI)
qed

end
